theory Spec2Isabelle
  imports Main "HOL-Library.Word" "HOL-Library.Sublist"
begin

section \<open>Strings\<close>

text \<open>
  A JavaScript string is a sequence of UTF-16 code units; \<open>length\<close>, \<open>slice\<close> and
  \<open>split\<close> all count and cut code units.
\<close>

type_synonym jsstring = "16 word list"

text \<open>ASCII literals of the source, written as HOL strings.\<close>

definition ascii :: "string \<Rightarrow> jsstring" where
  "ascii s = map (\<lambda>c. of_nat (of_char c)) s"

section \<open>The text splitter (split-text.js)\<close>

text \<open>
  \<open>splitText\<close> and \<open>_splitRecursive\<close> (here \<open>splitRecursive\<close>), the module that the
  providers import as \<open>shared/split-text.js\<close>; in this source tree it is the last
  part of \<open>src/content/modal.js\<close>. The bound \<open>maxChars\<close> is a natural number.

  \<open>const SEPARATORS = ['\n\n', '\n', '. ', ' ']\<close>, as code units:
  line feed is 0x0A, the full stop 0x2E, the space 0x20.
\<close>

definition SEPARATORS :: "jsstring list" where
  "SEPARATORS = [[0x0A, 0x0A], [0x0A], [0x2E, 0x20], [0x20]]"

text \<open>
  \<open>String.prototype.split(sep)\<close> for a string separator: scan from the left, cut at
  each occurrence of \<open>sep\<close> and resume after it; the rest of the text is the last part.
  \<open>acc\<close> is the part being read. With the empty separator JavaScript cuts between all
  code units.
\<close>

fun split_scan :: "jsstring \<Rightarrow> jsstring \<Rightarrow> jsstring \<Rightarrow> jsstring list" where
  "split_scan sep acc [] = [acc]"
| "split_scan sep acc (c # cs) =
     (if prefix sep (c # cs)
      then acc # split_scan sep [] (drop (length sep - 1) cs)
      else split_scan sep (acc @ [c]) cs)"

definition split_js :: "jsstring \<Rightarrow> jsstring \<Rightarrow> jsstring list" where
  "split_js sep text = (if sep = [] then map (\<lambda>c. [c]) text else split_scan sep [] text)"

text \<open>\<open>text.slice(i, j)\<close> for \<open>0 \<le> i \<le> j\<close>: the code units from \<open>i\<close> up to,
  not including, \<open>j\<close>, cut off at the end of the text.\<close>

definition slice :: "jsstring \<Rightarrow> nat \<Rightarrow> nat \<Rightarrow> jsstring" where
  "slice text i j = take (j - i) (drop i text)"

text \<open>
  The hard split: \<open>for (let i = 0; i < text.length; i += maxChars) chunks.push(text.slice(i, i + maxChars))\<close>.
  With \<open>maxChars = 0\<close> the loop never ends, which is the value \<open>None\<close>.
\<close>

partial_function (option) hard_slice ::
  "jsstring \<Rightarrow> nat \<Rightarrow> nat \<Rightarrow> jsstring list \<Rightarrow> jsstring list option" where
  "hard_slice text maxChars i chunks =
     (if i < length text
      then hard_slice text maxChars (i + maxChars) (chunks @ [slice text i (i + maxChars)])
      else Some chunks)"

declare hard_slice.simps [code]

text \<open>
  The merge loop over the parts: \<open>current\<close> is the chunk being grown, the empty string
  is falsy, so an empty \<open>current\<close> is neither joined with the separator nor pushed.
\<close>

fun merge_loop ::
  "jsstring \<Rightarrow> nat \<Rightarrow> jsstring list \<Rightarrow> jsstring \<Rightarrow> jsstring list \<Rightarrow> jsstring list \<times> jsstring" where
  "merge_loop sep maxChars [] current chunks = (chunks, current)"
| "merge_loop sep maxChars (part # parts) current chunks =
     (let candidate = (if current \<noteq> [] then current @ sep @ part else part)
      in if length candidate \<le> maxChars
         then merge_loop sep maxChars parts candidate chunks
         else merge_loop sep maxChars parts part
                (if current \<noteq> [] then chunks @ [current] else chunks))"

definition merge_parts :: "jsstring \<Rightarrow> nat \<Rightarrow> jsstring list \<Rightarrow> jsstring list" where
  "merge_parts sep maxChars parts =
     (case merge_loop sep maxChars parts [] [] of
        (chunks, current) \<Rightarrow> if current \<noteq> [] then chunks @ [current] else chunks)"

text \<open>\<open>chunks.flatMap(f)\<close> where \<open>f\<close> may not return.\<close>

fun flatMap :: "('a \<Rightarrow> 'b list option) \<Rightarrow> 'a list \<Rightarrow> 'b list option" where
  "flatMap f [] = Some []"
| "flatMap f (x # xs) =
     (case f x of
        None \<Rightarrow> None
      | Some ys \<Rightarrow> (case flatMap f xs of None \<Rightarrow> None | Some zs \<Rightarrow> Some (ys @ zs)))"

function splitRecursive :: "jsstring \<Rightarrow> nat \<Rightarrow> nat \<Rightarrow> jsstring list option" where
  "splitRecursive text maxChars sepIdx =
     (if length text \<le> maxChars then Some [text]
      else if sepIdx \<ge> length SEPARATORS then hard_slice text maxChars 0 []
      else
        let sep = SEPARATORS ! sepIdx;
            parts = split_js sep text
        in if length parts \<le> 1 then splitRecursive text maxChars (sepIdx + 1)
           else flatMap
                  (\<lambda>chunk. if length chunk > maxChars
                           then splitRecursive chunk maxChars (sepIdx + 1)
                           else Some [chunk])
                  (merge_parts sep maxChars parts))"
  by pat_completeness auto
termination
  by (relation "measure (\<lambda>(text, maxChars, sepIdx). length SEPARATORS - sepIdx)") auto

declare splitRecursive.simps [simp del]

definition splitText :: "jsstring \<Rightarrow> nat \<Rightarrow> jsstring list option" where
  "splitText text maxChars =
     (if length text \<le> maxChars then Some [text] else splitRecursive text maxChars 0)"


text \<open>\<open>parts.join(sep)\<close> of JavaScript arrays.\<close>

definition join_js :: "jsstring \<Rightarrow> jsstring list \<Rightarrow> jsstring" where
  "join_js sep parts = (case parts of [] \<Rightarrow> [] | p # ps \<Rightarrow> p @ concat (map ((@) sep) ps))"

section \<open>Errors and their classification (openai-agents.js)\<close>

text \<open>
  A thrown value, as far as the code reads it: \<open>err?.name\<close> and
  \<open>err?.message ?? String(err)\<close>.
\<close>

record js_error =
  name :: jsstring
  message :: jsstring

text \<open>\<open>new DOMException("Cancelled", "AbortError")\<close> and \<open>new Error(msg)\<close>.\<close>

definition AbortError :: js_error where
  "AbortError = \<lparr>name = ascii ''AbortError'', message = ascii ''Cancelled''\<rparr>"

definition Error :: "jsstring \<Rightarrow> js_error" where
  "Error msg = \<lparr>name = ascii ''Error'', message = msg\<rparr>"

text \<open>
  \<open>/p1|p2|.../i.test(m)\<close> for alternatives that are plain ASCII text: some alternative
  occurs in \<open>m\<close>, where the letters A to Z and a to z are not told apart. (Without the
  \<open>u\<close> flag, a code unit outside ASCII never matches an ASCII letter.)
\<close>

definition lower :: "16 word \<Rightarrow> 16 word" where
  "lower c = (if 0x41 \<le> c \<and> c \<le> 0x5A then c + 0x20 else c)"

definition test_i :: "string list \<Rightarrow> jsstring \<Rightarrow> bool" where
  "test_i alternatives m =
     list_ex (\<lambda>p. sublist (map lower (ascii p)) (map lower m)) alternatives"

definition isContextError :: "js_error \<Rightarrow> bool" where
  "isContextError err =
     test_i [''context size'', ''context length'', ''context window'', ''n_ctx'', ''exceeded'',
             ''too many tokens'', ''input too long'', ''maximum context'']
       (message err)"

definition formatErrorMessage :: "js_error \<Rightarrow> jsstring" where
  "formatErrorMessage err =
     (if name err = ascii ''AbortError'' then ascii ''Cancelled (tab closed or reloaded).''
      else if test_i [''timeout'', ''timed out'', ''ETIMEDOUT'', ''abort''] (message err)
      then ascii ''Request timed out. Try increasing timeout or reducing context length.''
      else if isContextError err
      then ascii (''Context size exceeded. Reduce '' @ [CHR 0x22] @ ''Context length'' @ [CHR 0x22]
                  @ '' in settings or shorten the prompt.'')
      else if test_i [''fetch'', ''network'', ''failed to fetch'', ''Connection'', ''ECONNREFUSED'',
                      ''ECONNRESET''] (message err)
      then ascii ''Network error. Check API URL and that the server is running.''
      else message err)"

section \<open>The orchestrating provider (openai-agents.js)\<close>

text \<open>
  \<open>OpenAIAgentsProvider\<close>, in this source tree the second part of
  \<open>src/providers/chrome-summarizer.js\<close>.
\<close>

definition CHARS_PER_TOKEN :: int where "CHARS_PER_TOKEN = 3"
definition RESPONSE_BUFFER_TOKENS :: int where "RESPONSE_BUFFER_TOKENS = 1024"
definition MIN_CONTENT_TOKENS :: int where "MIN_CONTENT_TOKENS = 256"
definition MAX_RETRY_DEPTH :: nat where "MAX_RETRY_DEPTH = 2"

text \<open>
  Of the settings only \<open>contextLength\<close> enters the chunking; the options page stores
  \<open>parseInt(...) || undefined\<close>, an integer or nothing.
\<close>

record settings =
  contextLength :: "int option"

text \<open>
  What the outside world does during one \<open>call\<close>:
  \<^item> \<open>backend n chunk\<close> is the \<open>n\<close>-th run of the agent (counting from 0), on the input
    \<open>chunk\<close>: the fragments read from its text stream, and how the run ended, \<open>None\<close> when
    the stream was done and \<open>result.completed\<close> resolved, \<open>Some err\<close> when
    \<open>runner.run\<close>, a read, the race with the signal or with the chunk timeout, or
    \<open>result.completed\<close> rejected with \<open>err\<close>;
  \<^item> \<open>signal\<close>, when given, tells whether \<open>signal.aborted\<close> holds after \<open>n\<close> runs;
  \<^item> \<open>onUpdate\<close> and \<open>onStatus\<close> tell whether the callbacks were passed;
  \<^item> \<open>detected\<close> is what \<open>_detectContextLength\<close> resolves to.
\<close>

record env =
  backend :: "nat \<Rightarrow> jsstring \<Rightarrow> jsstring list \<times> js_error option"
  signal :: "(nat \<Rightarrow> bool) option"
  onUpdate :: bool
  onStatus :: bool
  detected :: "int option"

text \<open>The status messages, with their numbers instead of the formatted text.\<close>

datatype status =
    Connecting
  | ProcessingParts nat
  | ProcessingArticle
  | Part nat nat
  | ErrorStatus jsstring

text \<open>
  What one \<open>call\<close> has done so far: the inputs of the agent runs, the arguments of
  \<open>onUpdate\<close> and those of \<open>onStatus\<close>, each in order.
\<close>

record session =
  calls :: "jsstring list"
  deltas :: "jsstring list"
  statuses :: "status list"

text \<open>A computation that may not return (\<open>None\<close>), may throw (\<open>Inl\<close>) or return (\<open>Inr\<close>).\<close>

type_synonym 'a outcome = "((js_error + 'a) \<times> session) option"

definition aborted :: "env \<Rightarrow> session \<Rightarrow> bool" where
  "aborted e s = (case signal e of None \<Rightarrow> False | Some f \<Rightarrow> f (length (calls s)))"

definition status_event :: "env \<Rightarrow> status \<Rightarrow> session \<Rightarrow> session" where
  "status_event e m s = (if onStatus e then s\<lparr>statuses := statuses s @ [m]\<rparr> else s)"

text \<open>
  \<open>_streamChunk\<close>: every fragment read is appended to \<open>chunkText\<close> and passed to
  \<open>onUpdate\<close> at once; the text is returned only when the run ends well.
\<close>

definition streamChunk :: "env \<Rightarrow> jsstring \<Rightarrow> session \<Rightarrow> (js_error + jsstring) \<times> session" where
  "streamChunk e chunk s =
     (case backend e (length (calls s)) chunk of
        (fragments, ending) \<Rightarrow>
          let s' = s\<lparr>calls := calls s @ [chunk],
                     deltas := (if onUpdate e then deltas s @ fragments else deltas s)\<rparr>
          in (case ending of None \<Rightarrow> Inr (concat fragments) | Some err \<Rightarrow> Inl err, s'))"

text \<open>
  \<open>_processChunkWithRetry\<close> and the loop over the sub-chunks in its \<open>catch\<close> block;
  \<open>retry_loop\<close> is called with \<open>retryDepth + 1\<close>.
\<close>

function processChunkWithRetry ::
    "env \<Rightarrow> jsstring \<Rightarrow> nat \<Rightarrow> nat \<Rightarrow> session \<Rightarrow> jsstring outcome"
  and retry_loop ::
    "env \<Rightarrow> jsstring list \<Rightarrow> nat \<Rightarrow> nat \<Rightarrow> jsstring \<Rightarrow> session \<Rightarrow> jsstring outcome"
where
  "processChunkWithRetry e chunk maxChunkChars retryDepth s =
     (case streamChunk e chunk s of
        (Inr chunkText, s') \<Rightarrow> Some (Inr chunkText, s')
      | (Inl err, s') \<Rightarrow>
          if isContextError err \<and> retryDepth < MAX_RETRY_DEPTH
          then (case splitText chunk (maxChunkChars div 2) of
                  None \<Rightarrow> None
                | Some subChunks \<Rightarrow> retry_loop e subChunks maxChunkChars (retryDepth + 1) [] s')
          else Some (Inl err, s'))"
| "retry_loop e [] maxChunkChars depth fullText s = Some (Inr fullText, s)"
| "retry_loop e (subChunk # rest) maxChunkChars depth fullText s =
     (if aborted e s then Some (Inl AbortError, s)
      else (case processChunkWithRetry e subChunk maxChunkChars depth s of
              None \<Rightarrow> None
            | Some (Inl err, s') \<Rightarrow> Some (Inl err, s')
            | Some (Inr subText, s') \<Rightarrow>
                retry_loop e rest maxChunkChars depth (fullText @ subText) s'))"
  by pat_completeness auto
termination
  by (relation "measures
        [\<lambda>x. case x of Inl (e, chunk, m, d, s) \<Rightarrow> 2 * (3 - d)
                      | Inr (e, subChunks, m, d, fullText, s) \<Rightarrow> 2 * (3 - d) + 1,
         \<lambda>x. case x of Inl (e, chunk, m, d, s) \<Rightarrow> 0
                      | Inr (e, subChunks, m, d, fullText, s) \<Rightarrow> length subChunks]")
     (auto simp: MAX_RETRY_DEPTH_def)

declare processChunkWithRetry.simps [simp del]

text \<open>The budget of \<open>call\<close>, in characters. A number is truthy when it is not 0.\<close>

definition truthy :: "int option \<Rightarrow> bool" where
  "truthy x = (case x of None \<Rightarrow> False | Some n \<Rightarrow> n \<noteq> 0)"

definition maxChunkChars :: "settings \<Rightarrow> int option \<Rightarrow> jsstring option \<Rightarrow> int" where
  "maxChunkChars st det prompt =
     (let ctx0 = (if truthy (contextLength st) then the (contextLength st)
                  else if truthy det then the det else 4096);
          ctx = max 512 ctx0;
          promptLength = (case prompt of None \<Rightarrow> 0 | Some p \<Rightarrow> int (length p));
          promptTokensEst = (promptLength + CHARS_PER_TOKEN - 1) div CHARS_PER_TOKEN;
          reserveTokens = min (ctx - MIN_CONTENT_TOKENS) (promptTokensEst + RESPONSE_BUFFER_TOKENS);
          maxChunkTokens = max MIN_CONTENT_TOKENS (ctx - reserveTokens)
      in maxChunkTokens * CHARS_PER_TOKEN)"

text \<open>The loop of \<open>call\<close> over the chunks; \<open>i\<close> is the index, \<open>n\<close> is \<open>chunks.length\<close>.\<close>

fun chunk_loop ::
  "env \<Rightarrow> jsstring list \<Rightarrow> nat \<Rightarrow> nat \<Rightarrow> nat \<Rightarrow> jsstring \<Rightarrow> session \<Rightarrow> jsstring outcome" where
  "chunk_loop e [] i n m fullText s = Some (Inr fullText, s)"
| "chunk_loop e (chunk # rest) i n m fullText s =
     (if aborted e s then Some (Inl AbortError, s)
      else let s1 = (if n > 1 then status_event e (Part (i + 1) n) s else s)
           in (case processChunkWithRetry e chunk m 0 s1 of
                 None \<Rightarrow> None
               | Some (Inl err, s') \<Rightarrow> Some (Inl err, s')
               | Some (Inr chunkText, s') \<Rightarrow>
                   chunk_loop e rest (i + 1) n m (fullText @ chunkText) s'))"

definition call :: "settings \<Rightarrow> env \<Rightarrow> jsstring \<Rightarrow> jsstring option \<Rightarrow> jsstring outcome" where
  "call st e text prompt =
     (let s0 = status_event e Connecting \<lparr>calls = [], deltas = [], statuses = []\<rparr>;
          m = nat (maxChunkChars st (detected e) prompt)
      in case splitText text m of
           None \<Rightarrow> None
         | Some chunks \<Rightarrow>
             let s1 = status_event e
                        (if length chunks > 1 then ProcessingParts (length chunks)
                         else ProcessingArticle) s0
             in (case chunk_loop e chunks 0 (length chunks) m [] s1 of
                   None \<Rightarrow> None
                 | Some (Inr fullText, s') \<Rightarrow> Some (Inr fullText, s')
                 | Some (Inl err, s') \<Rightarrow>
                     if name err = ascii ''AbortError'' then Some (Inl err, s')
                     else let msg = formatErrorMessage err
                          in Some (Inl (Error msg), status_event e (ErrorStatus msg) s')))"

section \<open>Notions used to state the properties\<close>

text \<open>A run of separators: zero or more separators of the cascade, one after the other.\<close>

inductive sep_run :: "jsstring \<Rightarrow> bool" where
  sep_run_empty: "sep_run []"
| sep_run_step: "sep \<in> set SEPARATORS \<Longrightarrow> sep_run g \<Longrightarrow> sep_run (sep @ g)"

text \<open>
  \<open>weave [g0, g1, ..., gn] [c1, ..., cn]\<close> is the text \<open>g0 c1 g1 ... cn gn\<close>: the chunks
  in order, with a gap before, between and after them.
\<close>

fun weave :: "jsstring list \<Rightarrow> jsstring list \<Rightarrow> jsstring" where
  "weave (g # gaps) (c # chunks) = g @ c @ weave gaps chunks"
| "weave gaps [] = concat gaps"
| "weave [] chunks = concat chunks"

text \<open>
  \<open>dec chunks t\<close>: the text \<open>t\<close> is the chunks in order, with a run of separators
  before, between and after them.
\<close>

inductive dec :: "jsstring list \<Rightarrow> jsstring \<Rightarrow> bool" where
  dec_Nil: "sep_run g \<Longrightarrow> dec [] g"
| dec_Cons: "sep_run g \<Longrightarrow> dec cs t \<Longrightarrow> dec (c # cs) (g @ c @ t)"

text \<open>
  Each element in turn through \<open>f\<close>, the state threaded through, stopping at the first
  that throws or does not return; the results in order.
\<close>

fun each_in_order ::
  "(jsstring \<Rightarrow> session \<Rightarrow> jsstring outcome) \<Rightarrow> jsstring list \<Rightarrow> session
     \<Rightarrow> jsstring list outcome" where
  "each_in_order f [] s = Some (Inr [], s)"
| "each_in_order f (c # cs) s =
     (case f c s of
        None \<Rightarrow> None
      | Some (Inl err, s') \<Rightarrow> Some (Inl err, s')
      | Some (Inr r, s') \<Rightarrow>
          (case each_in_order f cs s' of
             None \<Rightarrow> None
           | Some (Inl err, s'') \<Rightarrow> Some (Inl err, s'')
           | Some (Inr rs, s'') \<Rightarrow> Some (Inr (r # rs), s'')))"

definition map_outcome :: "('a \<Rightarrow> 'b) \<Rightarrow> 'a outcome \<Rightarrow> 'b outcome" where
  "map_outcome g x =
     (case x of
        None \<Rightarrow> None
      | Some (Inl err, s) \<Rightarrow> Some (Inl err, s)
      | Some (Inr r, s) \<Rightarrow> Some (Inr (g r), s))"

text \<open>The check \<open>if (signal?.aborted) throw new DOMException("Cancelled", "AbortError")\<close>
  in front of a computation.\<close>

definition unless_aborted :: "env \<Rightarrow> (session \<Rightarrow> 'a outcome) \<Rightarrow> session \<Rightarrow> 'a outcome" where
  "unless_aborted e f s = (if aborted e s then Some (Inl AbortError, s) else f s)"

section \<open>The splitter returns, and what it returns\<close>

subsection \<open>The hard split\<close>

lemma hard_slice_spec:
  assumes "0 < m"
  shows "\<exists>cs. hard_slice text m i chunks = Some (chunks @ cs) \<and> concat cs = drop i text
            \<and> (\<forall>c\<in>set cs. c \<noteq> [] \<and> length c \<le> m)"
proof (induction "length text - i" arbitrary: i chunks rule: less_induct)
  case less
  show ?case
  proof (cases "i < length text")
    case True
    then have "length text - (i + m) < length text - i" using assms by arith
    from less[OF this, of "chunks @ [slice text i (i + m)]"]
    obtain cs where cs: "hard_slice text m (i + m) (chunks @ [slice text i (i + m)])
          = Some ((chunks @ [slice text i (i + m)]) @ cs)"
        "concat cs = drop (i + m) text" "\<forall>c\<in>set cs. c \<noteq> [] \<and> length c \<le> m"
      by blast
    let ?cs = "slice text i (i + m) # cs"
    have 1: "hard_slice text m i chunks = Some (chunks @ ?cs)"
      using True cs(1) by (subst hard_slice.simps) simp
    have "take m (drop i text) @ drop (i + m) text = drop i text"
      by (metis add.commute append_take_drop_id drop_drop)
    then have 2: "concat ?cs = drop i text"
      using cs(2) by (simp add: slice_def)
    have 3: "\<forall>c\<in>set ?cs. c \<noteq> [] \<and> length c \<le> m"
      using cs(3) True assms by (auto simp: slice_def)
    from 1 2 3 show ?thesis by blast
  next
    case False
    then have "hard_slice text m i chunks = Some (chunks @ [])"
      by (subst hard_slice.simps) simp
    with False show ?thesis by auto
  qed
qed

subsection \<open>Splitting on a separator loses nothing\<close>

lemma split_scan_nonempty: "split_scan sep acc t \<noteq> []"
  by (induction sep acc t rule: split_scan.induct) auto

lemma join_js_Cons: "ps \<noteq> [] \<Longrightarrow> join_js sep (p # ps) = p @ sep @ join_js sep ps"
  by (cases ps) (simp_all add: join_js_def)

lemma join_split_scan: "sep \<noteq> [] \<Longrightarrow> join_js sep (split_scan sep acc t) = acc @ t"
proof (induction sep acc t rule: split_scan.induct)
  case (1 sep acc)
  then show ?case by (simp add: join_js_def)
next
  case (2 sep acc c cs)
  show ?case
  proof (cases "prefix sep (c # cs)")
    case True
    then obtain r where r: "c # cs = sep @ r" by (auto simp: prefix_def)
    with 2(3) have dr: "drop (length sep - 1) cs = r"
      by (cases sep) auto
    from 2(1)[OF True] have ih: "join_js sep (split_scan sep [] r) = r"
      using dr 2(3) by simp
    have "split_scan sep acc (c # cs) = acc # split_scan sep [] r"
      using True dr by simp
    then have "join_js sep (split_scan sep acc (c # cs))
        = acc @ sep @ join_js sep (split_scan sep [] r)"
      using split_scan_nonempty[of sep "[]" r] by (simp add: join_js_Cons)
    then show ?thesis using ih r by simp
  next
    case False
    with 2 show ?thesis by simp
  qed
qed

lemma join_split_js: "sep \<noteq> [] \<Longrightarrow> join_js sep (split_js sep t) = t"
  by (simp add: split_js_def join_split_scan)

subsection \<open>Texts with gaps\<close>

lemma sep_run_append: "sep_run a \<Longrightarrow> sep_run b \<Longrightarrow> sep_run (a @ b)"
  by (induction rule: sep_run.induct) (auto intro: sep_run.intros)

lemma sep_run_sep: "sep \<in> set SEPARATORS \<Longrightarrow> sep_run sep"
  using sep_run_step[OF _ sep_run_empty] by simp

lemma dec_gap: "sep_run g \<Longrightarrow> dec cs t \<Longrightarrow> dec cs (g @ t)"
proof (induction cs)
  case Nil
  then show ?case by (auto elim!: dec.cases intro!: dec_Nil sep_run_append)
next
  case (Cons c cs)
  from Cons.prems(2) obtain g' t' where "t = g' @ c @ t'" "sep_run g'" "dec cs t'"
    by (auto elim: dec.cases)
  then show ?case using Cons.prems(1) dec_Cons[of "g @ g'" cs t' c]
    by (simp add: sep_run_append)
qed

lemma dec_append: "dec xs a \<Longrightarrow> dec ys b \<Longrightarrow> dec (xs @ ys) (a @ b)"
proof (induction rule: dec.induct)
  case (dec_Nil g)
  then show ?case by (simp add: dec_gap)
next
  case (dec_Cons g cs t c)
  then show ?case using dec.dec_Cons[of g "cs @ ys" "t @ b" c] by simp
qed

lemma dec_single: "dec [c] c"
  using dec_Cons[OF sep_run_empty dec_Nil[OF sep_run_empty], of c] by simp

lemma dec_gap_right: "dec cs t \<Longrightarrow> sep_run g \<Longrightarrow> dec cs (t @ g)"
  using dec_append[of cs t "[]" g] by (simp add: dec_Nil)

lemma dec_snoc: "dec cs t \<Longrightarrow> sep_run g \<Longrightarrow> dec (cs @ [c]) (t @ c @ g)"
  using dec_append[OF _ dec_gap_right[OF dec_single], of cs t g c] by simp

lemma dec_concat:
  "dec cs t \<Longrightarrow> list_all2 (\<lambda>r c. dec r c) rs cs \<Longrightarrow> dec (concat rs) t"
proof (induction arbitrary: rs rule: dec.induct)
  case (dec_Nil g)
  then show ?case by (simp add: dec.dec_Nil)
next
  case (dec_Cons g cs t c)
  from dec_Cons.prems obtain r rs' where
    rs: "rs = r # rs'" "dec r c" "list_all2 (\<lambda>r c. dec r c) rs' cs"
    by (auto simp: list_all2_Cons2)
  from dec_append[OF dec_gap[OF dec_Cons.hyps(1) rs(2)] dec_Cons.IH[OF rs(3)]]
  show ?case by (simp add: rs(1))
qed

lemma dec_pieces: "dec cs (concat cs)"
proof (induction cs)
  case Nil
  then show ?case by (simp add: dec_Nil sep_run_empty)
next
  case (Cons c cs)
  then show ?case using dec_Cons[OF sep_run_empty, of cs "concat cs" c] by simp
qed

lemma dec_weave:
  "dec cs t \<Longrightarrow>
   \<exists>gaps. length gaps = Suc (length cs) \<and> (\<forall>g\<in>set gaps. sep_run g) \<and> weave gaps cs = t"
proof (induction rule: dec.induct)
  case (dec_Nil g)
  then have "length [g] = Suc (length ([]::jsstring list)) \<and> (\<forall>x\<in>set [g]. sep_run x)
       \<and> weave [g] [] = g"
    by simp
  then show ?case by blast
next
  case (dec_Cons g cs t c)
  then obtain gaps where
    gaps: "length gaps = Suc (length cs)" "\<forall>g\<in>set gaps. sep_run g" "weave gaps cs = t"
    by blast
  with dec_Cons.hyps(1)
  have "length (g # gaps) = Suc (length (c # cs)) \<and> (\<forall>x\<in>set (g # gaps). sep_run x)
       \<and> weave (g # gaps) (c # cs) = g @ c @ t"
    by simp
  then show ?case by blast
qed

lemma sep_run_chars: "sep_run g \<Longrightarrow> set g \<subseteq> {0x0A, 0x2E, 0x20}"
  by (induction rule: sep_run.induct) (auto simp: SEPARATORS_def)

subsection \<open>The merge loop\<close>

lemma merge_loop_dec:
  assumes sep: "sep_run sep"
  shows "dec chunks D \<Longrightarrow> merge_loop sep B ps cur chunks = (chunks', cur') \<Longrightarrow>
         \<exists>D'. dec chunks' D' \<and> D' @ cur' = D @ cur @ concat (map ((@) sep) ps)"
proof (induction ps arbitrary: cur chunks D)
  case Nil
  then show ?case by auto
next
  case (Cons p ps)
  show ?case
  proof (cases "cur = []")
    case True
    with Cons.prems(2) have "merge_loop sep B ps p chunks = (chunks', cur')"
      by (simp add: Let_def split: if_splits)
    from Cons.IH[OF dec_gap_right[OF Cons.prems(1) sep] this] True
    show ?thesis by simp
  next
    case False
    show ?thesis
    proof (cases "length (cur @ sep @ p) \<le> B")
      case True
      with False Cons.prems(2)
      have "merge_loop sep B ps (cur @ sep @ p) chunks = (chunks', cur')"
        by (simp add: Let_def)
      from Cons.IH[OF Cons.prems(1) this] show ?thesis by simp
    next
      case False
      with \<open>cur \<noteq> []\<close> Cons.prems(2)
      have "merge_loop sep B ps p (chunks @ [cur]) = (chunks', cur')"
        by (simp add: Let_def)
      from Cons.IH[OF dec_snoc[OF Cons.prems(1) sep] this] show ?thesis by simp
    qed
  qed
qed

lemma merge_parts_dec:
  assumes "sep \<in> set SEPARATORS" "parts \<noteq> []"
  shows "dec (merge_parts sep B parts) (join_js sep parts)"
proof -
  from assms(2) obtain p ps where parts: "parts = p # ps" by (cases parts) auto
  obtain chunks' cur' where m: "merge_loop sep B ps p [] = (chunks', cur')"
    by (cases "merge_loop sep B ps p []") auto
  have first: "merge_loop sep B parts [] [] = (chunks', cur')"
    using m by (simp add: parts Let_def)
  from merge_loop_dec[OF sep_run_sep[OF assms(1)] dec_Nil[OF sep_run_empty] m]
  obtain D' where D': "dec chunks' D'" "D' @ cur' = p @ concat (map ((@) sep) ps)" by auto
  have "dec (if cur' \<noteq> [] then chunks' @ [cur'] else chunks') (D' @ cur')"
    using D'(1) dec_snoc[OF D'(1) sep_run_empty, of cur'] by auto
  then show ?thesis
    using D'(2) first by (simp add: merge_parts_def parts join_js_def)
qed

lemma merge_loop_nonempty:
  "[] \<notin> set chunks \<Longrightarrow> merge_loop sep B ps cur chunks = (chunks', cur') \<Longrightarrow>
   [] \<notin> set chunks'"
proof (induction ps arbitrary: cur chunks)
  case Nil
  then show ?case by simp
next
  case (Cons p ps)
  let ?candidate = "if cur \<noteq> [] then cur @ sep @ p else p"
  show ?case
  proof (cases "length ?candidate \<le> B")
    case True
    with Cons.prems(2) have "merge_loop sep B ps ?candidate chunks = (chunks', cur')"
      by (simp add: Let_def)
    from Cons.IH[OF Cons.prems(1) this] show ?thesis .
  next
    case False
    let ?chunks = "if cur \<noteq> [] then chunks @ [cur] else chunks"
    from False Cons.prems(2) have "merge_loop sep B ps p ?chunks = (chunks', cur')"
      by (simp add: Let_def)
    moreover have "[] \<notin> set ?chunks" using Cons.prems(1) by simp
    ultimately show ?thesis using Cons.IH by blast
  qed
qed

lemma merge_parts_nonempty: "[] \<notin> set (merge_parts sep B parts)"
proof -
  obtain chunks' cur' where m: "merge_loop sep B parts [] [] = (chunks', cur')"
    by (cases "merge_loop sep B parts [] []") auto
  from merge_loop_nonempty[OF _ m] show ?thesis
    by (simp add: merge_parts_def m)
qed

subsection \<open>The recursion\<close>

lemma flatMap_Some:
  "\<forall>c\<in>set cs. \<exists>r. f c = Some r \<and> P r c \<Longrightarrow>
   \<exists>rs. flatMap f cs = Some (concat rs) \<and> list_all2 P rs cs"
proof (induction cs)
  case Nil
  then show ?case by simp
next
  case (Cons c cs)
  then obtain r rs where
    "f c = Some r" "P r c" "flatMap f cs = Some (concat rs)" "list_all2 P rs cs"
    by auto
  then have "flatMap f (c # cs) = Some (concat (r # rs)) \<and> list_all2 P (r # rs) (c # cs)"
    by simp
  then show ?case by blast
qed

lemma list_all2_left: "list_all2 P rs cs \<Longrightarrow> r \<in> set rs \<Longrightarrow> \<exists>c. P r c"
  by (induction rule: list_all2_induct) auto

lemma flatMap_step:
  assumes "\<forall>c\<in>set chunks. \<exists>r. f c = Some r
             \<and> (\<forall>x\<in>set r. x \<noteq> [] \<and> length x \<le> B) \<and> dec r c"
    and "dec chunks t"
  shows "\<exists>cs. flatMap f chunks = Some cs
           \<and> (\<forall>c\<in>set cs. c \<noteq> [] \<and> length c \<le> B) \<and> dec cs t"
proof -
  let ?P = "\<lambda>r c. (\<forall>x\<in>set r. x \<noteq> [] \<and> length x \<le> B) \<and> dec r c"
  from flatMap_Some[of chunks f ?P] assms(1)
  obtain rs where rs: "flatMap f chunks = Some (concat rs)" "list_all2 ?P rs chunks"
    by blast
  from rs(2) have a: "list_all2 (\<lambda>r c. dec r c) rs chunks"
    by (rule list_all2_mono) simp
  from rs(2) have b: "\<forall>r\<in>set rs. \<forall>x\<in>set r. x \<noteq> [] \<and> length x \<le> B"
    using list_all2_left[OF rs(2)] by blast
  from dec_concat[OF assms(2) a] b rs(1) show ?thesis by auto
qed

lemma sep_nth:
  "idx < length SEPARATORS \<Longrightarrow>
   SEPARATORS ! idx \<in> set SEPARATORS \<and> SEPARATORS ! idx \<noteq> []"
  by (auto simp: SEPARATORS_def nth_Cons split: nat.splits)

lemma splitRecursive_spec:
  "0 < B \<Longrightarrow> t \<noteq> [] \<Longrightarrow> \<exists>cs. splitRecursive t B idx = Some cs
      \<and> (\<forall>c\<in>set cs. c \<noteq> [] \<and> length c \<le> B) \<and> dec cs t"
proof (induction t B idx rule: splitRecursive.induct)
  case (1 t B idx)
  show ?case
  proof (cases "length t \<le> B")
    case True
    then show ?thesis using "1.prems" by (simp add: splitRecursive.simps dec_single)
  next
    case long: False
    show ?thesis
    proof (cases "length SEPARATORS \<le> idx")
      case True
      from hard_slice_spec[OF "1.prems"(1), of t 0 "[]"]
      obtain cs where cs: "hard_slice t B 0 [] = Some cs" "concat cs = t"
          "\<forall>c\<in>set cs. c \<noteq> [] \<and> length c \<le> B" by auto
      have "dec cs t" using dec_pieces[of cs] cs(2) by simp
      with cs long True show ?thesis by (simp add: splitRecursive.simps)
    next
      case idx: False
      define sep where "sep = SEPARATORS ! idx"
      define parts where "parts = split_js sep t"
      from idx have sep: "sep \<in> set SEPARATORS" "sep \<noteq> []"
        using sep_nth[of idx] by (simp_all add: sep_def)
      show ?thesis
      proof (cases "length parts \<le> 1")
        case True
        from "1.IH"(1)[OF long idx sep_def parts_def True "1.prems"]
        show ?thesis using long idx True
          by (subst splitRecursive.simps) (simp add: sep_def parts_def Let_def)
      next
        case False
        let ?f = "\<lambda>chunk. if length chunk > B then splitRecursive chunk B (idx + 1)
                          else Some [chunk]"
        let ?chunks = "merge_parts sep B parts"
        have parts_ne: "parts \<noteq> []" using False by auto
        have d: "dec ?chunks t"
          using merge_parts_dec[OF sep(1) parts_ne, of B] join_split_js[OF sep(2), of t]
          by (simp add: parts_def)
        have "\<forall>c\<in>set ?chunks. \<exists>r. ?f c = Some r
                \<and> (\<forall>x\<in>set r. x \<noteq> [] \<and> length x \<le> B) \<and> dec r c"
        proof
          fix c assume c: "c \<in> set ?chunks"
          then have ne: "c \<noteq> []" using merge_parts_nonempty[of sep B parts] by auto
          show "\<exists>r. ?f c = Some r \<and> (\<forall>x\<in>set r. x \<noteq> [] \<and> length x \<le> B) \<and> dec r c"
          proof (cases "length c > B")
            case True
            from "1.IH"(2)[OF long idx sep_def parts_def False True "1.prems"(1) ne]
            show ?thesis using True by simp
          next
            case False
            then show ?thesis using ne by (simp add: dec_single)
          qed
        qed
        from flatMap_step[OF this d]
        show ?thesis using long idx False
          by (subst splitRecursive.simps) (simp add: sep_def parts_def Let_def)
      qed
    qed
  qed
qed

lemma splitText_spec:
  assumes "0 < B"
  shows "\<exists>cs. splitText t B = Some cs \<and> (\<forall>c\<in>set cs. length c \<le> B)
           \<and> (t \<noteq> [] \<longrightarrow> [] \<notin> set cs) \<and> dec cs t"
proof (cases "length t \<le> B")
  case True
  then show ?thesis by (auto simp: splitText_def dec_single)
next
  case False
  then have "t \<noteq> []" by auto
  from splitRecursive_spec[OF assms this, of 0] False show ?thesis
    by (auto simp: splitText_def)
qed

lemma dec_Nil_sep_run: "dec [] t \<Longrightarrow> sep_run t"
  by (auto elim: dec.cases)

section \<open>Properties of the splitter\<close>

text \<open>
  C3. For every text \<open>T\<close> and every bound \<open>B \<ge> 1\<close>, \<open>splitText(T, B)\<close> returns, and
  every chunk it returns has length at most \<open>B\<close>.
\<close>

theorem splitText_chunks_bounded:
  "1 \<le> B \<Longrightarrow> \<exists>chunks. splitText T B = Some chunks \<and> (\<forall>c\<in>set chunks. length c \<le> B)"
  using splitText_spec[of B T] by auto

theorem splitText_chunks_bounded_witness:
  "(1::nat) \<le> 4 \<and> (\<exists>chunks. splitText (ascii ''one two. three'') 4 = Some chunks
      \<and> (\<forall>c\<in>set chunks. length c \<le> 4))"
  using splitText_chunks_bounded[of 4 "ascii ''one two. three''"] by simp

text \<open>
  C9. For every text \<open>c\<close> and bound \<open>B \<ge> 1\<close> with \<open>c.length \<le> B\<close>, \<open>splitText(c, B)\<close>
  returns the one-element list \<open>[c]\<close>: a chunk that conforms already is left as it is.
\<close>

theorem splitText_conforming:
  "1 \<le> B \<Longrightarrow> length c \<le> B \<Longrightarrow> splitText c B = Some [c]"
  by (simp add: splitText_def)

theorem splitText_conforming_witness:
  "(1::nat) \<le> 3 \<and> length [0x61, 0x20 :: 16 word] \<le> 3
     \<and> splitText [0x61, 0x20] 3 = Some [[0x61, 0x20]]"
  using splitText_conforming[of 3 "[0x61, 0x20]"] by simp

text \<open>
  C1, as stated: the chunks of \<open>splitText(T, B)\<close>, rejoined with the separators that
  produced them, are \<open>T\<close>. It fails where a piece between two separators is empty: the
  text of a space and the letter a, with \<open>B = 1\<close>, is split at the space into the empty
  string and the letter; the merge loop neither joins nor pushes the empty \<open>current\<close>, so
  the only chunk is the letter, and the space is lost.
\<close>

theorem splitText_rejoin_counterexample:
  "splitText [0x20, 0x61] 1 = Some [[0x61]] \<and> join_js [0x20] [[0x61]] \<noteq> [0x20, 0x61]"
  by (simp add: splitText_def splitRecursive.simps SEPARATORS_def split_js_def merge_parts_def
      join_js_def)

text \<open>
  C1, amended. For every text \<open>T\<close> and every bound \<open>B \<ge> 1\<close>, \<open>splitText(T, B)\<close> returns
  chunks that occur in \<open>T\<close> in order and without overlap, and what lies before, between
  and after them in \<open>T\<close> are runs of separators (possibly empty): no character is
  duplicated or reordered, and only separators are lost.
\<close>

theorem splitText_rejoin_gaps:
  "1 \<le> B \<Longrightarrow>
   \<exists>chunks gaps. splitText T B = Some chunks \<and> length gaps = Suc (length chunks)
      \<and> (\<forall>g\<in>set gaps. sep_run g) \<and> weave gaps chunks = T"
proof -
  assume "1 \<le> B"
  then obtain cs where cs: "splitText T B = Some cs" "dec cs T"
    using splitText_spec[of B T] by auto
  from dec_weave[OF cs(2)] cs(1) show ?thesis by blast
qed

theorem splitText_rejoin_gaps_witness:
  "(1::nat) \<le> 1 \<and>
   (\<exists>chunks gaps. splitText [0x20, 0x61] 1 = Some chunks \<and> length gaps = Suc (length chunks)
      \<and> (\<forall>g\<in>set gaps. sep_run g) \<and> weave gaps chunks = [0x20, 0x61])"
  using splitText_rejoin_gaps[of 1 "[0x20, 0x61]"] by simp

text \<open>
  C10, as stated: for every non-empty text and every bound \<open>B \<ge> 1\<close> the chunk list is
  not empty. It fails for two spaces and \<open>B = 1\<close>: all three pieces around the spaces
  are empty, nothing is pushed, and the list returned is empty.
\<close>

theorem splitText_only_separators_counterexample:
  "splitText [0x20, 0x20] 1 = Some []"
  by (simp add: splitText_def splitRecursive.simps SEPARATORS_def split_js_def merge_parts_def)

text \<open>
  C10, amended. For every non-empty text \<open>T\<close> and every bound \<open>B \<ge> 1\<close>,
  \<open>splitText(T, B)\<close> returns a list in which no chunk is the empty string; the list is
  not empty whenever \<open>T\<close> has a character other than line feed, full stop and space.
\<close>

theorem splitText_no_empty_chunk:
  "1 \<le> B \<Longrightarrow> T \<noteq> [] \<Longrightarrow>
   \<exists>chunks. splitText T B = Some chunks \<and> [] \<notin> set chunks
      \<and> (\<not> set T \<subseteq> {0x0A, 0x2E, 0x20} \<longrightarrow> chunks \<noteq> [])"
proof -
  assume B: "1 \<le> B" and T: "T \<noteq> []"
  then obtain cs where cs: "splitText T B = Some cs" "[] \<notin> set cs" "dec cs T"
    using splitText_spec[of B T] by auto
  have "cs = [] \<Longrightarrow> set T \<subseteq> {0x0A, 0x2E, 0x20}"
    using cs(3) sep_run_chars[OF dec_Nil_sep_run, of T] by simp
  with cs show ?thesis by blast
qed

theorem splitText_no_empty_chunk_witness:
  "(1::nat) \<le> 1 \<and> [0x20, 0x61 :: 16 word] \<noteq> [] \<and>
   (\<exists>chunks. splitText [0x20, 0x61] 1 = Some chunks \<and> [] \<notin> set chunks
      \<and> (\<not> set [0x20, 0x61 :: 16 word] \<subseteq> {0x0A, 0x2E, 0x20} \<longrightarrow> chunks \<noteq> []))"
  using splitText_no_empty_chunk[of 1 "[0x20, 0x61]"] by simp

section \<open>Evaluating the splitter on texts of a known shape\<close>

lemma split_scan_absent:
  "sep \<noteq> [] \<Longrightarrow> \<not> sublist sep t \<Longrightarrow> split_scan sep acc t = [acc @ t]"
proof (induction t arbitrary: acc)
  case Nil
  then show ?case by simp
next
  case (Cons c cs)
  then have "\<not> prefix sep (c # cs)" "\<not> sublist sep cs"
    by (auto simp: sublist_Cons_right)
  with Cons show ?case by simp
qed

lemma hd_absent: "sep \<noteq> [] \<Longrightarrow> hd sep \<notin> set t \<Longrightarrow> \<not> sublist sep t"
  by (metis hd_in_set set_mono_sublist subsetD)

lemma split_scan_run: "split_scan [c] acc (replicate n c) = acc # replicate n []"
  by (induction n arbitrary: acc) simp_all

lemma merge_loop_empties: "merge_loop sep B (replicate n []) [] chunks = (chunks, [])"
  by (induction n) simp_all

lemma splitRecursive_skip:
  "B < length t \<Longrightarrow> idx < length SEPARATORS \<Longrightarrow> \<not> sublist (SEPARATORS ! idx) t \<Longrightarrow>
   splitRecursive t B idx = splitRecursive t B (Suc idx)"
  using sep_nth[of idx]
  by (subst splitRecursive.simps) (simp add: split_js_def split_scan_absent)

lemma splitText_spaces: "B < n \<Longrightarrow> splitText (replicate n 0x20) B = Some []"
proof -
  assume n: "B < n"
  let ?t = "replicate n (0x20 :: 16 word)"
  have len: "B < length ?t" using n by simp
  have 0: "splitRecursive ?t B 0 = splitRecursive ?t B (Suc 0)"
    by (rule splitRecursive_skip[OF len]) (simp_all add: SEPARATORS_def hd_absent)
  have 1: "splitRecursive ?t B (Suc 0) = splitRecursive ?t B (Suc (Suc 0))"
    by (rule splitRecursive_skip[OF len]) (simp_all add: SEPARATORS_def hd_absent)
  have 2: "splitRecursive ?t B (Suc (Suc 0)) = splitRecursive ?t B (Suc (Suc (Suc 0)))"
    by (rule splitRecursive_skip[OF len]) (simp_all add: SEPARATORS_def hd_absent)
  have m: "merge_parts [0x20] B ([] # replicate n []) = []"
    using merge_loop_empties[of "[0x20]" B n "[]"] by (simp add: merge_parts_def)
  have 3: "splitRecursive ?t B (Suc (Suc (Suc 0))) = Some []"
    using n by (subst splitRecursive.simps)
      (simp add: SEPARATORS_def split_js_def split_scan_run m)
  from 0 1 2 3 n show ?thesis by (simp add: splitText_def)
qed

lemma split_scan_at:
  "sep \<noteq> [] \<Longrightarrow> hd sep \<notin> set w \<Longrightarrow>
   split_scan sep acc (w @ sep @ rest) = (acc @ w) # split_scan sep [] rest"
proof (induction w arbitrary: acc)
  case Nil
  then obtain a sep' where "sep = a # sep'" by (cases sep) auto
  then show ?case by simp
next
  case (Cons c w)
  then have "\<not> prefix sep (c # w @ sep @ rest)" by (cases sep) auto
  with Cons show ?case by simp
qed


section \<open>Properties of the orchestrating provider\<close>

lemma overflow_is_context_error: "isContextError (Error (ascii ''context length exceeded''))"
  by code_simp

lemma maxChunkChars_ge: "768 \<le> maxChunkChars st det prompt"
proof -
  have a: "768 \<le> max MIN_CONTENT_TOKENS x * CHARS_PER_TOKEN" for x
    by (simp add: MIN_CONTENT_TOKENS_def CHARS_PER_TOKEN_def max_def)
  have "\<exists>x. maxChunkChars st det prompt = max MIN_CONTENT_TOKENS x * CHARS_PER_TOKEN"
    unfolding maxChunkChars_def Let_def by (rule exI) (rule refl)
  then obtain x where "maxChunkChars st det prompt = max MIN_CONTENT_TOKENS x * CHARS_PER_TOKEN" ..
  with a[of x] show ?thesis by simp
qed

text \<open>
  C7. For every settings record and every prompt, the chunk budget \<open>maxChunkChars\<close>
  computed by \<open>call\<close> is at least \<open>MIN_CONTENT_TOKENS * CHARS_PER_TOKEN = 256 * 3 = 768\<close>
  characters, and so is never zero or negative.
\<close>

theorem maxChunkChars_floor:
  "MIN_CONTENT_TOKENS * CHARS_PER_TOKEN \<le> maxChunkChars st det prompt
   \<and> MIN_CONTENT_TOKENS * CHARS_PER_TOKEN = 768 \<and> 0 < maxChunkChars st det prompt"
  using maxChunkChars_ge[of st det prompt]
  by (simp add: MIN_CONTENT_TOKENS_def CHARS_PER_TOKEN_def)

lemma retry_loop_each:
  "retry_loop e subs m d acc s =
     map_outcome (\<lambda>rs. acc @ concat rs)
       (each_in_order (\<lambda>c. unless_aborted e (processChunkWithRetry e c m d)) subs s)"
proof (induction subs arbitrary: acc s)
  case Nil
  then show ?case by (simp add: map_outcome_def)
next
  case (Cons c cs)
  show ?case
  proof (cases "aborted e s")
    case True
    then show ?thesis by (simp add: map_outcome_def unless_aborted_def)
  next
    case False
    show ?thesis
    proof (cases "processChunkWithRetry e c m d s")
      case None
      with False show ?thesis by (simp add: map_outcome_def unless_aborted_def)
    next
      case (Some a)
      obtain r s' where a: "a = (r, s')" by (cases a) auto
      show ?thesis
      proof (cases r)
        case (Inl err)
        with False Some a show ?thesis by (simp add: map_outcome_def unless_aborted_def)
      next
        case (Inr t)
        with False Some a Cons.IH[of "acc @ t" s'] show ?thesis
          by (auto simp: map_outcome_def unless_aborted_def split: option.splits sum.splits)
      qed
    qed
  qed
qed

text \<open>
  C4. When the run of a chunk fails with the error \<open>err\<close>: if \<open>err\<close> is classified as an
  overflow and the retry depth is below 2, the chunk is split again at half the character
  budget, the sub-chunks go in order through the same retry logic at depth + 1 (each
  after the check of the cancellation signal), and the result is their results
  concatenated in order; otherwise \<open>err\<close> itself is thrown.
\<close>

theorem retry_logic:
  assumes "streamChunk e chunk s = (Inl err, s')"
  shows "processChunkWithRetry e chunk m d s =
     (if isContextError err \<and> d < 2
      then (case splitText chunk (m div 2) of
              None \<Rightarrow> None
            | Some subChunks \<Rightarrow>
                map_outcome concat
                  (each_in_order (\<lambda>c. unless_aborted e (processChunkWithRetry e c m (d + 1)))
                     subChunks s'))
      else Some (Inl err, s'))"
  using assms
  by (subst processChunkWithRetry.simps)
     (simp add: MAX_RETRY_DEPTH_def retry_loop_each split: option.splits)

theorem retry_logic_witness:
  "streamChunk \<lparr>backend = (\<lambda>n c. ([], Some (Error (ascii ''n_ctx'')))), signal = None,
                onUpdate = True, onStatus = True, detected = None\<rparr>
     [0x61] \<lparr>calls = [], deltas = [], statuses = []\<rparr>
   = (Inl (Error (ascii ''n_ctx'')), \<lparr>calls = [[0x61]], deltas = [], statuses = []\<rparr>)
   \<and> processChunkWithRetry
       \<lparr>backend = (\<lambda>n c. ([], Some (Error (ascii ''n_ctx'')))), signal = None,
        onUpdate = True, onStatus = True, detected = None\<rparr>
       [0x61] 768 0 \<lparr>calls = [], deltas = [], statuses = []\<rparr>
     = (if isContextError (Error (ascii ''n_ctx'')) \<and> (0::nat) < 2
        then (case splitText [0x61] (768 div 2) of
                None \<Rightarrow> None
              | Some subChunks \<Rightarrow>
                  map_outcome concat
                    (each_in_order
                       (\<lambda>c. unless_aborted
                              \<lparr>backend = (\<lambda>n c. ([], Some (Error (ascii ''n_ctx'')))),
                               signal = None, onUpdate = True, onStatus = True, detected = None\<rparr>
                              (processChunkWithRetry
                                 \<lparr>backend = (\<lambda>n c. ([], Some (Error (ascii ''n_ctx'')))),
                                  signal = None, onUpdate = True, onStatus = True,
                                  detected = None\<rparr>
                                 c 768 (0 + 1)))
                       subChunks \<lparr>calls = [[0x61]], deltas = [], statuses = []\<rparr>))
        else Some (Inl (Error (ascii ''n_ctx'')),
                   \<lparr>calls = [[0x61]], deltas = [], statuses = []\<rparr>))"
proof -
  have h: "streamChunk \<lparr>backend = (\<lambda>n c. ([], Some (Error (ascii ''n_ctx'')))), signal = None,
                onUpdate = True, onStatus = True, detected = None\<rparr>
     [0x61] \<lparr>calls = [], deltas = [], statuses = []\<rparr>
   = (Inl (Error (ascii ''n_ctx'')), \<lparr>calls = [[0x61]], deltas = [], statuses = []\<rparr>)"
    by (simp add: streamChunk_def)
  from h retry_logic[OF h, of 768 0] show ?thesis by (rule conjI)
qed

text \<open>
  C2. The claim: when \<open>call\<close> resolves with \<open>content\<close>, the \<open>onUpdate\<close> arguments of that
  call, concatenated in order, are \<open>content\<close>, also when a run emitted fragments, failed
  with an overflow error and was recovered by the retry. The code breaks it there: the
  fragments of the failed run have been passed to \<open>onUpdate\<close> already and stay, while
  \<open>content\<close> holds the text of the retry only. Here the first run emits one fragment and
  fails with "context length exceeded", the second succeeds.
\<close>

theorem call_deltas_after_recovery:
  "call \<lparr>contextLength = None\<rparr>
        \<lparr>backend = (\<lambda>n c. if n = 0
                            then ([ascii ''Dra''], Some (Error (ascii ''context length exceeded'')))
                            else ([ascii ''Done''], None)),
         signal = None, onUpdate = True, onStatus = False, detected = None\<rparr>
        (ascii ''ab'') None
   = Some (Inr (ascii ''Done''),
           \<lparr>calls = [ascii ''ab'', ascii ''ab''], deltas = [ascii ''Dra'', ascii ''Done''],
            statuses = []\<rparr>)
   \<and> concat [ascii ''Dra'', ascii ''Done''] \<noteq> ascii ''Done''"
proof -
  have m: "maxChunkChars \<lparr>contextLength = None\<rparr> None None = 9216"
    by (simp add: maxChunkChars_def Let_def truthy_def MIN_CONTENT_TOKENS_def
        CHARS_PER_TOKEN_def RESPONSE_BUFFER_TOKENS_def)
  have l: "length (ascii ''ab'') = 2" by (simp add: ascii_def)
  have d: "ascii ''Dra'' \<noteq> []" by (simp add: ascii_def)
  show ?thesis
    by (simp add: call_def splitText_def status_event_def aborted_def streamChunk_def
        processChunkWithRetry.simps overflow_is_context_error MAX_RETRY_DEPTH_def m l d)
qed

text \<open>
  C6, as stated: when the cancellation signal has fired before the first chunk starts,
  \<open>call\<close> makes no run of the agent, emits no delta and fails with AbortError. The
  failure is missing when the split yields no chunk: the signal is checked inside the
  loop over the chunks only. With a context length of 512 the budget is 768 characters;
  a text of 769 spaces has no chunk, and \<open>call\<close> resolves with the empty content.
\<close>

theorem call_aborted_no_chunks_counterexample:
  "call \<lparr>contextLength = Some 512\<rparr>
        \<lparr>backend = (\<lambda>n c. ([], None)), signal = Some (\<lambda>n. True), onUpdate = True,
         onStatus = True, detected = None\<rparr>
        (replicate 769 0x20) None
   = Some (Inr [], \<lparr>calls = [], deltas = [], statuses = [Connecting, ProcessingArticle]\<rparr>)"
proof -
  have "maxChunkChars \<lparr>contextLength = Some 512\<rparr> None None = 768"
    by (simp add: maxChunkChars_def Let_def truthy_def MIN_CONTENT_TOKENS_def
        CHARS_PER_TOKEN_def RESPONSE_BUFFER_TOKENS_def)
  then show ?thesis
    by (simp add: call_def splitText_spaces status_event_def)
qed

text \<open>
  C6, amended. When the cancellation signal has fired before the first chunk starts,
  \<open>call\<close> returns, having made no run of the agent and emitted no delta; it fails with
  AbortError when the split of the text has at least one chunk, and resolves with the
  empty content when it has none.
\<close>

theorem call_aborted_before_first_chunk:
  assumes "signal e = Some f" and "f 0"
  shows "\<exists>chunks s'. splitText text (nat (maxChunkChars st (detected e) prompt)) = Some chunks
            \<and> call st e text prompt = Some (if chunks = [] then Inr [] else Inl AbortError, s')
            \<and> calls s' = [] \<and> deltas s' = []"
proof -
  let ?m = "nat (maxChunkChars st (detected e) prompt)"
  have "0 < ?m" using maxChunkChars_ge[of st "detected e" prompt] by simp
  from splitText_spec[OF this, of "text"] obtain chunks where
    chunks: "splitText text ?m = Some chunks" by blast
  let ?s0 = "status_event e Connecting \<lparr>calls = [], deltas = [], statuses = []\<rparr>"
  let ?s1 = "status_event e (if length chunks > 1 then ProcessingParts (length chunks)
                             else ProcessingArticle) ?s0"
  have s1: "calls ?s1 = []" "deltas ?s1 = []" by (simp_all add: status_event_def)
  then have ab: "aborted e ?s1" using assms by (simp add: aborted_def)
  have loop: "chunk_loop e chunks 0 (length chunks) ?m [] ?s1
      = Some (if chunks = [] then Inr [] else Inl AbortError, ?s1)"
    using ab by (cases chunks) simp_all
  have "call st e text prompt = Some (if chunks = [] then Inr [] else Inl AbortError, ?s1)"
    using chunks loop by (simp add: call_def Let_def AbortError_def)
  with chunks s1 show ?thesis by blast
qed

theorem call_aborted_before_first_chunk_witness:
  "signal \<lparr>backend = (\<lambda>n c. ([c], None)), signal = Some (\<lambda>n. True), onUpdate = True,
           onStatus = True, detected = None\<rparr> = Some (\<lambda>n. True)
   \<and> (\<lambda>n::nat. True) 0
   \<and> (\<exists>chunks s'.
        splitText (ascii ''ab'')
          (nat (maxChunkChars \<lparr>contextLength = None\<rparr>
             (detected \<lparr>backend = (\<lambda>n c. ([c], None)), signal = Some (\<lambda>n. True),
                        onUpdate = True, onStatus = True, detected = None\<rparr>) None))
          = Some chunks
        \<and> call \<lparr>contextLength = None\<rparr>
             \<lparr>backend = (\<lambda>n c. ([c], None)), signal = Some (\<lambda>n. True), onUpdate = True,
              onStatus = True, detected = None\<rparr> (ascii ''ab'') None
          = Some (if chunks = [] then Inr [] else Inl AbortError, s')
        \<and> calls s' = [] \<and> deltas s' = [])"
  using call_aborted_before_first_chunk[of
      "\<lparr>backend = (\<lambda>n c. ([c], None)), signal = Some (\<lambda>n. True), onUpdate = True,
        onStatus = True, detected = None\<rparr>" "\<lambda>n. True" "ascii ''ab''" "\<lparr>contextLength = None\<rparr>" None]
  by simp

subsection \<open>How many runs one chunk can cost\<close>











text \<open>
  The exception, on the code: a chunk of 400 spaces, budget 768, a backend that always
  fails with "context length exceeded". The split at 384 has no chunk, and the retry
  returns the empty string after one run.
\<close>

lemma retry_of_separators_only:
  "processChunkWithRetry
     \<lparr>backend = (\<lambda>n c. ([], Some (Error (ascii ''context length exceeded'')))),
      signal = None, onUpdate = True, onStatus = True, detected = None\<rparr>
     (replicate 400 0x20) 768 0 \<lparr>calls = [], deltas = [], statuses = []\<rparr>
   = Some (Inr [], \<lparr>calls = [replicate 400 0x20], deltas = [], statuses = []\<rparr>)"
  by (simp add: processChunkWithRetry.simps streamChunk_def overflow_is_context_error
      MAX_RETRY_DEPTH_def splitText_spaces)

section \<open>The scenario of 10,000 characters and a budget of 4,000\<close>

lemma split_scan_join:
  "\<forall>w\<in>set (w0 # ws). c \<notin> set w \<Longrightarrow>
   split_scan [c] acc (join_js [c] (w0 # ws)) = (acc @ w0) # ws"
proof (induction ws arbitrary: acc w0)
  case Nil
  then show ?case by (simp add: join_js_def split_scan_absent hd_absent)
next
  case (Cons w ws)
  have j: "join_js [c] (w0 # w # ws) = w0 @ [c] @ join_js [c] (w # ws)"
    by (simp add: join_js_def)
  from Cons.prems have w0: "hd [c] \<notin> set w0" by simp
  from Cons.prems have "\<forall>w\<in>set (w # ws). c \<notin> set w" by simp
  from Cons.IH[OF this, of "[]"] split_scan_at[OF _ w0, of acc "join_js [c] (w # ws)"]
  show ?case by (simp add: j)
qed

lemma merge_first:
  assumes "cur \<noteq> []" and "length cur \<le> B"
  shows "(length (cur @ concat (map ((@) sep) ps)) \<le> B
            \<and> merge_loop sep B ps cur chunks = (chunks, cur @ concat (map ((@) sep) ps)))
       \<or> (\<exists>c p ps2. merge_loop sep B ps cur chunks = merge_loop sep B ps2 p (chunks @ [c])
            \<and> cur @ concat (map ((@) sep) ps) = c @ sep @ p @ concat (map ((@) sep) ps2)
            \<and> length c \<le> B \<and> B < length c + length sep + length p
            \<and> p \<in> set ps \<and> set ps2 \<subseteq> set ps)"
  using assms
proof (induction ps arbitrary: cur)
  case Nil
  then show ?case by simp
next
  case (Cons p ps)
  show ?case
  proof (cases "length (cur @ sep @ p) \<le> B")
    case True
    with Cons.prems have step: "merge_loop sep B (p # ps) cur chunks
        = merge_loop sep B ps (cur @ sep @ p) chunks"
      by (simp add: Let_def)
    have ne: "cur @ sep @ p \<noteq> []" using Cons.prems by simp
    from Cons.IH[OF ne True] show ?thesis
    proof
      assume "length ((cur @ sep @ p) @ concat (map ((@) sep) ps)) \<le> B \<and>
          merge_loop sep B ps (cur @ sep @ p) chunks
            = (chunks, (cur @ sep @ p) @ concat (map ((@) sep) ps))"
      with step show ?thesis by simp
    next
      assume "\<exists>c q ps2. merge_loop sep B ps (cur @ sep @ p) chunks
                = merge_loop sep B ps2 q (chunks @ [c])
            \<and> (cur @ sep @ p) @ concat (map ((@) sep) ps) = c @ sep @ q @ concat (map ((@) sep) ps2)
            \<and> length c \<le> B \<and> B < length c + length sep + length q
            \<and> q \<in> set ps \<and> set ps2 \<subseteq> set ps"
      then obtain c q ps2 where
        "merge_loop sep B ps (cur @ sep @ p) chunks = merge_loop sep B ps2 q (chunks @ [c])"
        "(cur @ sep @ p) @ concat (map ((@) sep) ps) = c @ sep @ q @ concat (map ((@) sep) ps2)"
        "length c \<le> B" "B < length c + length sep + length q"
        "q \<in> set ps" "set ps2 \<subseteq> set ps" by blast
      with step True have "merge_loop sep B (p # ps) cur chunks = merge_loop sep B ps2 q (chunks @ [c])
            \<and> cur @ concat (map ((@) sep) (p # ps)) = c @ sep @ q @ concat (map ((@) sep) ps2)
            \<and> length c \<le> B \<and> B < length c + length sep + length q
            \<and> q \<in> set (p # ps) \<and> set ps2 \<subseteq> set (p # ps)"
        by auto
      then show ?thesis by blast
    qed
  next
    case False
    with Cons.prems have "merge_loop sep B (p # ps) cur chunks = merge_loop sep B ps p (chunks @ [cur])
            \<and> cur @ concat (map ((@) sep) (p # ps)) = cur @ sep @ p @ concat (map ((@) sep) ps)
            \<and> length cur \<le> B \<and> B < length cur + length sep + length p
            \<and> p \<in> set (p # ps) \<and> set ps \<subseteq> set (p # ps)"
      by (auto simp: Let_def)
    then show ?thesis by blast
  qed
qed


lemma merge_rest_fits:
  assumes "cur \<noteq> []" and "length (cur @ concat (map ((@) sep) ps)) \<le> B"
  shows "merge_loop sep B ps cur chunks = (chunks, cur @ concat (map ((@) sep) ps))"
proof -
  from assms(2) have "length cur \<le> B" by simp
  from merge_first[OF assms(1) this, of sep ps chunks] show ?thesis
  proof
    assume "length (cur @ concat (map ((@) sep) ps)) \<le> B \<and>
      merge_loop sep B ps cur chunks = (chunks, cur @ concat (map ((@) sep) ps))"
    then show ?thesis by simp
  next
    assume "\<exists>c p ps2. merge_loop sep B ps cur chunks = merge_loop sep B ps2 p (chunks @ [c])
            \<and> cur @ concat (map ((@) sep) ps) = c @ sep @ p @ concat (map ((@) sep) ps2)
            \<and> length c \<le> B \<and> B < length c + length sep + length p
            \<and> p \<in> set ps \<and> set ps2 \<subseteq> set ps"
    then obtain c p ps2 where
      e: "cur @ concat (map ((@) sep) ps) = c @ sep @ p @ concat (map ((@) sep) ps2)"
      and b: "B < length c + length sep + length p" by blast
    from e have "length (cur @ concat (map ((@) sep) ps))
        = length (c @ sep @ p @ concat (map ((@) sep) ps2))" by simp
    with b assms(2) have False by simp
    then show ?thesis ..
  qed
qed

lemma merge_push:
  assumes "cur \<noteq> []" and "length cur \<le> B" and "B < length (cur @ concat (map ((@) sep) ps))"
  shows "\<exists>c p ps2. merge_loop sep B ps cur chunks = merge_loop sep B ps2 p (chunks @ [c])
            \<and> cur @ concat (map ((@) sep) ps) = c @ sep @ p @ concat (map ((@) sep) ps2)
            \<and> length c \<le> B \<and> B < length c + length sep + length p
            \<and> p \<in> set ps \<and> set ps2 \<subseteq> set ps"
proof -
  have "\<not> length (cur @ concat (map ((@) sep) ps)) \<le> B" using assms(3) by linarith
  with merge_first[OF assms(1,2), of sep ps chunks] show ?thesis by blast
qed

text \<open>
  C8, as stated: every text of 10,000 characters whose only separators are single spaces
  is split, with a budget of 4,000, into exactly 3 chunks. It fails for four words of
  2500, 2499, 2499 and 2499 letters: no two of them fit one chunk, so the chunks are
  four.
\<close>

theorem splitText_ten_thousand_counterexample:
  "length (replicate 2500 (0x61 :: 16 word) @ [0x20] @ replicate 2499 0x61 @ [0x20]
            @ replicate 2499 0x61 @ [0x20] @ replicate 2499 0x61) = 10000
   \<and> splitText (replicate 2500 0x61 @ [0x20] @ replicate 2499 0x61 @ [0x20]
                  @ replicate 2499 0x61 @ [0x20] @ replicate 2499 0x61) 4000
     = Some [replicate 2500 0x61, replicate 2499 0x61, replicate 2499 0x61, replicate 2499 0x61]"
proof -
  let ?a = "replicate 2500 (0x61 :: 16 word)"
  let ?b = "replicate 2499 (0x61 :: 16 word)"
  let ?t = "?a @ [0x20] @ ?b @ [0x20] @ ?b @ [0x20] @ ?b"
  have len: "length ?t = 10000" by simp
  have long: "4000 < length ?t" by simp
  have k0: "splitRecursive ?t 4000 0 = splitRecursive ?t 4000 (Suc 0)"
    by (rule splitRecursive_skip[OF long]) (simp_all add: SEPARATORS_def hd_absent)
  have k1: "splitRecursive ?t 4000 (Suc 0) = splitRecursive ?t 4000 (Suc (Suc 0))"
    by (rule splitRecursive_skip[OF long]) (simp_all add: SEPARATORS_def hd_absent)
  have k2: "splitRecursive ?t 4000 (Suc (Suc 0)) = splitRecursive ?t 4000 (Suc (Suc (Suc 0)))"
    by (rule splitRecursive_skip[OF long]) (simp_all add: SEPARATORS_def hd_absent)
  have parts: "split_js [0x20] ?t = [?a, ?b, ?b, ?b]"
    using split_scan_at[of "[0x20]" ?a "[]" "?b @ [0x20] @ ?b @ [0x20] @ ?b"]
      split_scan_at[of "[0x20]" ?b "[]" "?b @ [0x20] @ ?b"]
      split_scan_at[of "[0x20]" ?b "[]" ?b]
    by (simp add: split_js_def split_scan_absent hd_absent)
  have merged: "merge_parts [0x20] 4000 [?a, ?b, ?b, ?b] = [?a, ?b, ?b, ?b]"
    by (simp add: merge_parts_def Let_def)
  have "splitRecursive ?t 4000 (Suc (Suc (Suc 0))) = Some [?a, ?b, ?b, ?b]"
    using parts merged
    by (subst splitRecursive.simps) (simp add: SEPARATORS_def Let_def)
  with k0 k1 k2 have "splitText ?t 4000 = Some [?a, ?b, ?b, ?b]"
    by (simp add: splitText_def)
  with len show ?thesis by (rule conjI)
qed

text \<open>
  C8, amended. For every text of 10,000 characters that is non-empty words joined by
  single spaces, without line feed and without full stop followed by space, and whose
  words have at most 1,000 characters each, \<open>splitText\<close> with a budget of 4,000 returns
  exactly 3 chunks, none longer than 4,000, which joined by single spaces are the text.
\<close>

theorem splitText_ten_thousand:
  assumes len: "length T = 10000"
    and T: "T = join_js [0x20] words"
    and words: "\<forall>w\<in>set words. w \<noteq> [] \<and> length w \<le> 1000 \<and> 0x20 \<notin> set w"
    and no_lf: "0x0A \<notin> set T"
    and no_stop: "\<not> sublist [0x2E, 0x20] T"
  shows "\<exists>c1 c2 c3. splitText T 4000 = Some [c1, c2, c3]
           \<and> length c1 \<le> 4000 \<and> length c2 \<le> 4000 \<and> length c3 \<le> 4000
           \<and> join_js [0x20] [c1, c2, c3] = T"
proof -
  let ?sep = "[0x20 :: 16 word]"
  let ?tail = "\<lambda>ps. concat (map ((@) ?sep) ps)"
  from len T obtain w ws where ws: "words = w # ws"
    by (cases words) (auto simp: join_js_def)
  have Tw: "T = w @ ?tail ws" using T ws by (simp add: join_js_def)
  have w: "w \<noteq> []" "length w \<le> 4000" using words ws by simp_all
  have ws_ok: "\<forall>p\<in>set ws. p \<noteq> [] \<and> length p \<le> 1000" using words ws by simp
  \<comment> \<open>the first chunk\<close>
  have big0: "4000 < length (w @ ?tail ws)" using len Tw by simp
  from merge_push[OF w big0, of "[]"]
  obtain c1 p1 ps1 where 1:
    "merge_loop ?sep 4000 ws w [] = merge_loop ?sep 4000 ps1 p1 ([] @ [c1])"
    "w @ ?tail ws = c1 @ ?sep @ p1 @ ?tail ps1"
    "length c1 \<le> 4000" "4000 < length c1 + length ?sep + length p1"
    "p1 \<in> set ws" "set ps1 \<subseteq> set ws"
    by blast
  have p1: "p1 \<noteq> []" "length p1 \<le> 1000" using ws_ok 1(5) by auto
  have c1: "3000 \<le> length c1" using 1(4) p1(2) by simp
  have "length T = length (c1 @ ?sep @ p1 @ ?tail ps1)" using Tw 1(2) by simp
  then have len1: "length c1 + 1 + length (p1 @ ?tail ps1) = 10000"
    using len by simp
  \<comment> \<open>the second chunk\<close>
  have p1': "length p1 \<le> 4000" using p1(2) by simp
  have big1: "4000 < length (p1 @ ?tail ps1)" using len1 1(3) by linarith
  from merge_push[OF p1(1) p1' big1, of "[c1]"]
  obtain c2 p2 ps2 where 2:
    "merge_loop ?sep 4000 ps1 p1 [c1] = merge_loop ?sep 4000 ps2 p2 ([c1] @ [c2])"
    "p1 @ ?tail ps1 = c2 @ ?sep @ p2 @ ?tail ps2"
    "length c2 \<le> 4000" "4000 < length c2 + length ?sep + length p2"
    "p2 \<in> set ps1" "set ps2 \<subseteq> set ps1"
    by blast
  have p2: "p2 \<noteq> []" "length p2 \<le> 1000" using ws_ok 1(6) 2(5) by auto
  have c2: "3000 \<le> length c2" using 2(4) p2(2) by simp
  let ?c3 = "p2 @ ?tail ps2"
  have "length (p1 @ ?tail ps1) = length (c2 @ ?sep @ ?c3)" using 2(2) by simp
  then have len2: "length c1 + 1 + length c2 + 1 + length ?c3 = 10000"
    using len1 by simp
  \<comment> \<open>the rest fits into the third\<close>
  have c3: "length ?c3 \<le> 4000" using len2 c1 c2 by linarith
  from merge_rest_fits[OF p2(1) c3, of "[c1, c2]"]
  have 3: "merge_loop ?sep 4000 ps2 p2 [c1, c2] = ([c1, c2], ?c3)" .
  have c3_ne: "?c3 \<noteq> []" using p2(1) by simp
  have "merge_loop ?sep 4000 words [] [] = merge_loop ?sep 4000 ws w []"
    using w(2) by (simp add: ws Let_def)
  also have "\<dots> = ([c1, c2], ?c3)" using 1(1) 2(1) 3 by simp
  finally have merged: "merge_parts ?sep 4000 words = [c1, c2, ?c3]"
    using c3_ne by (simp add: merge_parts_def)
  have joined: "join_js ?sep [c1, c2, ?c3] = T"
    using Tw 1(2) 2(2) by (simp add: join_js_def)
  \<comment> \<open>the cascade\<close>
  have long: "4000 < length T" using len by simp
  have parts: "split_js ?sep T = words"
    using words split_scan_join[of w ws "0x20" "[]"] by (simp add: split_js_def T ws)
  have many: "\<not> length words \<le> 1"
  proof
    assume "length words \<le> 1"
    then have "ws = []" using ws by simp
    then have "T = w" using Tw by simp
    then show False using len words ws by simp
  qed
  have k0: "splitRecursive T 4000 0 = splitRecursive T 4000 (Suc 0)"
    using no_lf by (intro splitRecursive_skip[OF long]) (simp_all add: SEPARATORS_def hd_absent)
  have k1: "splitRecursive T 4000 (Suc 0) = splitRecursive T 4000 (Suc (Suc 0))"
    using no_lf by (intro splitRecursive_skip[OF long]) (simp_all add: SEPARATORS_def hd_absent)
  have k2: "splitRecursive T 4000 (Suc (Suc 0)) = splitRecursive T 4000 (Suc (Suc (Suc 0)))"
    using no_stop by (intro splitRecursive_skip[OF long]) (simp_all add: SEPARATORS_def)
  have "splitRecursive T 4000 (Suc (Suc (Suc 0))) = Some [c1, c2, ?c3]"
    using long many parts merged 1(3) 2(3) c3
    by (subst splitRecursive.simps) (simp add: SEPARATORS_def Let_def)
  with k0 k1 k2 long have "splitText T 4000 = Some [c1, c2, ?c3]"
    by (simp add: splitText_def)
  with 1(3) 2(3) c3 joined show ?thesis by blast
qed


theorem splitText_ten_thousand_witness:
  "length (join_js [0x20] (replicate 1000 0x61 # replicate 9 (replicate 999 0x61))) = 10000
   \<and> join_js [0x20] (replicate 1000 0x61 # replicate 9 (replicate 999 0x61))
       = join_js [0x20] (replicate 1000 0x61 # replicate 9 (replicate 999 0x61))
   \<and> list_all (\<lambda>w. w \<noteq> [] \<and> length w \<le> 1000 \<and> 0x20 \<notin> set w)
         (replicate 1000 0x61 # replicate 9 (replicate 999 (0x61 :: 16 word)))
   \<and> 0x0A \<notin> set (join_js [0x20] (replicate 1000 0x61 # replicate 9 (replicate 999 0x61)))
   \<and> \<not> sublist [0x2E, 0x20]
         (join_js [0x20] (replicate 1000 0x61 # replicate 9 (replicate 999 0x61)))
   \<and> (\<exists>c1 c2 c3.
         splitText (join_js [0x20] (replicate 1000 0x61 # replicate 9 (replicate 999 0x61))) 4000
           = Some [c1, c2, c3]
         \<and> length c1 \<le> 4000 \<and> length c2 \<le> 4000 \<and> length c3 \<le> 4000
         \<and> join_js [0x20] [c1, c2, c3]
             = join_js [0x20] (replicate 1000 0x61 # replicate 9 (replicate 999 0x61)))"
proof -
  let ?words = "replicate 1000 0x61 # replicate 9 (replicate 999 (0x61 :: 16 word))"
  let ?T = "join_js [0x20] ?words"
  have a: "length ?T = 10000" by (simp add: join_js_def length_concat sum_list_replicate)
  have b: "?T = join_js [0x20] ?words" by (rule refl)
  have c: "\<forall>w\<in>set ?words. w \<noteq> [] \<and> length w \<le> 1000 \<and> 0x20 \<notin> set w" by simp
  have d: "0x0A \<notin> set ?T" by (simp add: join_js_def)
  have "0x2E \<notin> set ?T" by (simp add: join_js_def)
  then have e: "\<not> sublist [0x2E, 0x20] ?T" by (intro hd_absent) simp_all
  have c': "list_all (\<lambda>w. w \<noteq> [] \<and> length w \<le> 1000 \<and> 0x20 \<notin> set w) ?words"
    using c by (simp only: list_all_iff)
  from a b c' d e splitText_ten_thousand[OF a b c d e] show ?thesis by (intro conjI)
qed


end
